theory Spec2Isabelle
  imports Complex_Main
begin

section \<open>Izhikevich network simulation: model of the source\<close>

text \<open>
  The script \<open>movie1(watts_strogatz).py\<close> builds a directed graph with fixed out-degree,
  samples per-neuron parameters and edge weights, and then advances all neurons once per
  animation frame in \<open>update\<close>. Floating-point numbers are modelled as \<open>real\<close>
  (rounding, infinities and NaN are not represented); Python integers as \<open>int\<close>, node
  indices as \<open>nat\<close>. Exceptions raised by Python, numpy and networkx are values of
  \<open>error\<close>.
\<close>

datatype error = ValueError | IndexError | NetworkXError

text \<open>Sequencing: an exception in the first computation skips the rest.\<close>

definition and_then :: "error + 'a \<Rightarrow> ('a \<Rightarrow> error + 'b) \<Rightarrow> error + 'b" where
  "and_then m f = (case m of Inl e \<Rightarrow> Inl e | Inr x \<Rightarrow> f x)"

subsection \<open>Arrays and loops\<close>

text \<open>\<open>xs[i]\<close> and \<open>xs[i] = v\<close> for a non-negative index: IndexError out of range.\<close>

definition getitem :: "'a list \<Rightarrow> nat \<Rightarrow> error + 'a" where
  "getitem xs i = (if i < length xs then Inr (xs ! i) else Inl IndexError)"

definition setitem :: "'a list \<Rightarrow> nat \<Rightarrow> 'a \<Rightarrow> error + 'a list" where
  "setitem xs i v = (if i < length xs then Inr (xs[i := v]) else Inl IndexError)"

text \<open>\<open>W[i, j]\<close> and \<open>W[i, j] = v\<close> on a two-dimensional array stored by rows.\<close>

definition getitem2 :: "'a list list \<Rightarrow> nat \<Rightarrow> nat \<Rightarrow> error + 'a" where
  "getitem2 m i j = and_then (getitem m i) (\<lambda>row. getitem row j)"

definition setitem2 :: "'a list list \<Rightarrow> nat \<Rightarrow> nat \<Rightarrow> 'a \<Rightarrow> error + 'a list list" where
  "setitem2 m i j v =
     and_then (getitem m i) (\<lambda>row.
     and_then (setitem row j v) (\<lambda>row'. setitem m i row'))"

text \<open>\<open>range(n)\<close> is empty for \<open>n \<le> 0\<close>.\<close>

definition py_range :: "int \<Rightarrow> nat list" where
  "py_range n = [0..<nat n]"

text \<open>\<open>np.full(n, x)\<close> (and \<open>np.zeros(n)\<close>): a negative dimension raises ValueError.\<close>

definition np_full :: "int \<Rightarrow> 'a \<Rightarrow> error + 'a list" where
  "np_full n x = (if n < 0 then Inl ValueError else Inr (replicate (nat n) x))"

definition np_zeros :: "int \<Rightarrow> error + real list" where
  "np_zeros n = np_full n 0"

definition np_zeros2 :: "int \<Rightarrow> int \<Rightarrow> error + real list list" where
  "np_zeros2 n m =
     (if n < 0 \<or> m < 0 then Inl ValueError
      else Inr (replicate (nat n) (replicate (nat m) 0)))"

text \<open>\<open>np.clip(x, lo, hi)\<close> on a scalar: \<open>minimum(maximum(x, lo), hi)\<close>.\<close>

definition clip :: "real \<Rightarrow> real \<Rightarrow> real \<Rightarrow> real" where
  "clip x lo hi = min (max x lo) hi"

text \<open>A \<open>for x in xs\<close> loop whose body may raise: the first exception ends the loop.\<close>

fun for_loop :: "('a \<Rightarrow> 's \<Rightarrow> error + 's) \<Rightarrow> 'a list \<Rightarrow> 's \<Rightarrow> error + 's" where
  "for_loop body [] s = Inr s"
| "for_loop body (x # xs) s = and_then (body x s) (for_loop body xs)"

subsection \<open>The random source\<close>

text \<open>
  numpy's global generator is modelled by the infinite sequence of raw outputs that its
  current state determines; drawing consumes the head of the sequence.
  \<open>np.random.seed\<close> replaces the state by the one the seeding function \<open>mt\<close> of the
  generator assigns to the seed.
\<close>

type_synonym rng = "nat \<Rightarrow> nat"

definition rng_tail :: "rng \<Rightarrow> rng" where
  "rng_tail g = (\<lambda>n. g (Suc n))"

definition np_random_seed :: "(nat \<Rightarrow> rng) \<Rightarrow> nat \<Rightarrow> rng \<Rightarrow> rng" where
  "np_random_seed mt sd g = mt sd"

text \<open>\<open>random_sample\<close>: a double in \<open>[0, 1)\<close> with 53 random bits.\<close>

definition random_sample :: "rng \<Rightarrow> real \<times> rng" where
  "random_sample g = (real (g 0 mod 2 ^ 53) / 2 ^ 53, rng_tail g)"

text \<open>A random integer in \<open>[0, mx]\<close>, as the shuffle uses.\<close>

definition random_interval :: "nat \<Rightarrow> rng \<Rightarrow> nat \<times> rng" where
  "random_interval mx g = (g 0 mod Suc mx, rng_tail g)"

text \<open>\<open>np.random.uniform(lo, hi)\<close> is \<open>lo + (hi - lo) * random_sample()\<close>.\<close>

definition uniform :: "real \<Rightarrow> real \<Rightarrow> rng \<Rightarrow> real \<times> rng" where
  "uniform lo hi g = (case random_sample g of (r, g') \<Rightarrow> (lo + (hi - lo) * r, g'))"

fun uniform_n :: "real \<Rightarrow> real \<Rightarrow> nat \<Rightarrow> rng \<Rightarrow> real list \<times> rng" where
  "uniform_n lo hi 0 g = ([], g)"
| "uniform_n lo hi (Suc n) g =
     (case uniform lo hi g of (x, g1) \<Rightarrow>
        (case uniform_n lo hi n g1 of (xs, g2) \<Rightarrow> (x # xs, g2)))"

text \<open>\<open>np.random.uniform(lo, hi, n)\<close>: \<open>n\<close> draws in sequence; negative size raises.\<close>

definition uniform_size :: "real \<Rightarrow> real \<Rightarrow> int \<Rightarrow> rng \<Rightarrow> error + (real list \<times> rng)" where
  "uniform_size lo hi n g =
     (if n < 0 then Inl ValueError else Inr (uniform_n lo hi (nat n) g))"

text \<open>
  \<open>permutation(n)\<close>: Fisher-Yates shuffle of \<open>arange(n)\<close>, for \<open>i = n-1\<close> down to \<open>1\<close>
  swapping positions \<open>i\<close> and a random \<open>j \<le> i\<close>.
\<close>

definition swap :: "'a list \<Rightarrow> nat \<Rightarrow> nat \<Rightarrow> 'a list" where
  "swap xs i j = xs[i := xs ! j, j := xs ! i]"

fun shuffle :: "nat \<Rightarrow> 'a list \<Rightarrow> rng \<Rightarrow> 'a list \<times> rng" where
  "shuffle 0 xs g = (xs, g)"
| "shuffle (Suc i) xs g =
     (case random_interval (Suc i) g of (j, g') \<Rightarrow> shuffle i (swap xs (Suc i) j) g')"

definition permutation :: "nat \<Rightarrow> rng \<Rightarrow> nat list \<times> rng" where
  "permutation n g = shuffle (n - 1) [0..<n] g"

text \<open>
  \<open>np.random.choice(a, size, replace=False)\<close>: ValueError when \<open>a\<close> is empty and a
  sample is asked for, when the sample is larger than the population, or when the size is
  negative; otherwise the elements of \<open>a\<close> at the first \<open>size\<close> indices of a random
  permutation (all below \<open>len(a)\<close>).
\<close>

definition choice :: "'a list \<Rightarrow> int \<Rightarrow> rng \<Rightarrow> error + ('a list \<times> rng)" where
  "choice pop sz g =
     (if length pop = 0 \<and> sz \<noteq> 0 then Inl ValueError
      else if sz > int (length pop) then Inl ValueError
      else if sz < 0 then Inl ValueError
      else (case permutation (length pop) g of
              (idx, g') \<Rightarrow> Inr (map (\<lambda>i. pop ! i) (take (nat sz) idx), g')))"

subsection \<open>The directed graph\<close>

text \<open>
  \<open>nx.DiGraph\<close> keeps a dictionary from node to the dictionary of its successors, both in
  insertion order: an association list from node to successor list.
\<close>

type_synonym digraph = "(nat \<times> nat list) list"

definition add_node :: "digraph \<Rightarrow> nat \<Rightarrow> digraph" where
  "add_node G n = (if n \<in> fst ` set G then G else G @ [(n, [])])"

definition add_nodes_from :: "digraph \<Rightarrow> nat list \<Rightarrow> digraph" where
  "add_nodes_from G ns = fold (\<lambda>n G'. add_node G' n) ns G"

definition add_succ :: "nat \<Rightarrow> nat \<Rightarrow> nat \<times> nat list \<Rightarrow> nat \<times> nat list" where
  "add_succ u v e =
     (if fst e = u \<and> v \<notin> set (snd e) then (fst e, snd e @ [v]) else e)"

definition add_edge :: "digraph \<Rightarrow> nat \<Rightarrow> nat \<Rightarrow> digraph" where
  "add_edge G u v = map (add_succ u v) (add_node (add_node G u) v)"

definition successors :: "digraph \<Rightarrow> nat \<Rightarrow> error + nat list" where
  "successors G n = (case map_of G n of None \<Rightarrow> Inl NetworkXError | Some ns \<Rightarrow> Inr ns)"

definition edges :: "digraph \<Rightarrow> (nat \<times> nat) list" where
  "edges G = concat (map (\<lambda>(n, ns). map (Pair n) ns) G)"

subsection \<open>The neuron model\<close>

definition izhikevich ::
  "real \<Rightarrow> real \<Rightarrow> real \<Rightarrow> real \<Rightarrow> real \<Rightarrow> real \<Rightarrow> real \<Rightarrow> real \<times> real" where
  "izhikevich V u I a b c d =
     (let dV = 0.04 * V\<^sup>2 + 5 * V + 140 - u + I;
          du = a * (b * V - u);
          V1 = V + dV;
          u1 = u + du
      in if V1 \<ge> 30 then (c, u1 + d) else (V1, u1))"

subsection \<open>The simulation state and one step\<close>

text \<open>The module-level variables that \<open>update\<close> reads and writes.\<close>

record sim =
  sN :: int
  sG :: digraph
  sW :: "real list list"
  sV :: "real list"
  su :: "real list"
  sI :: "real list"
  params_a :: "real list"
  params_b :: "real list"
  params_c :: "real list"
  params_d :: "real list"

text \<open>The body of \<open>for j in neighbors\<close>: \<open>new_I[j] += W[i, j] * (V[i]*2 - params["c"][i])\<close>.\<close>

definition deliver :: "sim \<Rightarrow> nat \<Rightarrow> nat \<Rightarrow> real list \<Rightarrow> error + real list" where
  "deliver s i j new_I =
     and_then (getitem new_I j) (\<lambda>x.
     and_then (getitem2 (sW s) i j) (\<lambda>w.
     and_then (getitem (sV s) i) (\<lambda>v.
     and_then (getitem (params_c s) i) (\<lambda>c.
       setitem new_I j (x + w * (v * 2 - c))))))"

text \<open>The body of the first \<open>for i in range(N)\<close> loop of \<open>update\<close>.\<close>

definition propagate_from :: "sim \<Rightarrow> nat \<Rightarrow> real list \<Rightarrow> error + real list" where
  "propagate_from s i new_I =
     and_then (getitem (sV s) i) (\<lambda>v.
       if v > 0 then
         and_then (successors (sG s) i) (\<lambda>neighbors.
           for_loop (deliver s i) neighbors new_I)
       else Inr new_I)"

text \<open>
  The body of the second loop: the neuron update, then the clamp, both stored in place.
\<close>

definition neuron_step :: "nat \<Rightarrow> sim \<Rightarrow> error + sim" where
  "neuron_step i s =
     and_then (getitem (sV s) i) (\<lambda>v.
     and_then (getitem (su s) i) (\<lambda>w.
     and_then (getitem (sI s) i) (\<lambda>x.
     and_then (getitem (params_a s) i) (\<lambda>a.
     and_then (getitem (params_b s) i) (\<lambda>b.
     and_then (getitem (params_c s) i) (\<lambda>c.
     and_then (getitem (params_d s) i) (\<lambda>d.
     (case izhikevich v w x a b c d of (V1, u1) \<Rightarrow>
     and_then (setitem (sV s) i V1) (\<lambda>V2.
     and_then (setitem (su s) i u1) (\<lambda>u2.
     and_then (getitem V2 i) (\<lambda>v2.
     and_then (setitem V2 i (clip v2 (- 80) 80)) (\<lambda>V3.
       Inr (s\<lparr>sV := V3, su := u2\<rparr>)))))))))))))"

text \<open>
  \<open>update(t)\<close>: the frame number only goes into the title. The new current is computed
  from zeros, the noise is added, the global \<open>I\<close> is replaced, then every neuron is stepped.
\<close>

definition update :: "sim \<Rightarrow> rng \<Rightarrow> error + (sim \<times> rng)" where
  "update s g =
     and_then (np_zeros (sN s)) (\<lambda>z.
     and_then (for_loop (propagate_from s) (py_range (sN s)) z) (\<lambda>new_I.
     and_then (uniform_size (- 0.5) 0.5 (sN s) g) (\<lambda>(noise, g').
     and_then (for_loop neuron_step (py_range (sN s)) (s\<lparr>sI := map2 (+) new_I noise\<rparr>))
       (\<lambda>s'. Inr (s', g')))))"

text \<open>Consecutive frames: \<open>update\<close> called \<open>n\<close> times, the states after each call collected.\<close>

fun run :: "nat \<Rightarrow> sim \<Rightarrow> rng \<Rightarrow> error + (sim list \<times> sim \<times> rng)" where
  "run 0 s g = Inr ([], s, g)"
| "run (Suc n) s g =
     and_then (update s g) (\<lambda>(s1, g1).
     and_then (run n s1 g1) (\<lambda>(tr, s2, g2). Inr (s1 # tr, s2, g2)))"

subsection \<open>Initialisation\<close>

text \<open>
  The constants at the top of the script: \<open>N = 200\<close>, \<open>k = 3\<close>, \<open>T = 200\<close> and the seed
  \<open>42\<close>. The fixed sampling ranges are written in \<open>initialise\<close> as the script has them.
\<close>

record config =
  cfg_N :: int
  cfg_k :: int
  cfg_T :: int
  cfg_seed :: nat

definition script_config :: config where
  "script_config = \<lparr>cfg_N = 200, cfg_k = 3, cfg_T = 200, cfg_seed = 42\<rparr>"

text \<open>
  The body of \<open>for node in range(N)\<close>: draw \<open>k\<close> targets among the other nodes and add an
  edge to each.
\<close>

definition connect :: "int \<Rightarrow> int \<Rightarrow> nat \<Rightarrow> digraph \<times> rng \<Rightarrow> error + (digraph \<times> rng)" where
  "connect N k node = (\<lambda>(G, g).
     and_then (choice (filter (\<lambda>n. n \<noteq> node) (py_range N)) k g) (\<lambda>(targets, g').
       Inr (fold (\<lambda>target G'. add_edge G' node target) targets G, g')))"

text \<open>The body of \<open>for i, j in G.edges()\<close>: \<open>W[i, j] = np.random.uniform(0.8, 1.2)\<close>.\<close>

definition assign_weight ::
  "nat \<times> nat \<Rightarrow> real list list \<times> rng \<Rightarrow> error + (real list list \<times> rng)" where
  "assign_weight = (\<lambda>(i, j) (W, g).
     (case uniform 0.8 1.2 g of (w, g') \<Rightarrow>
        and_then (setitem2 W i j w) (\<lambda>W'. Inr (W', g'))))"

text \<open>
  Lines 31 to 67 of the script, in order (the spring layout only feeds the drawing and has
  its own generator). \<open>g0\<close> is the state of the global generator when the script starts.
\<close>

definition initialise :: "(nat \<Rightarrow> rng) \<Rightarrow> config \<Rightarrow> rng \<Rightarrow> error + (sim \<times> rng)" where
  "initialise mt cfg g0 =
     (let N = cfg_N cfg; k = cfg_k cfg;
          G0 = add_nodes_from [] (py_range N);
          g = np_random_seed mt (cfg_seed cfg) g0
      in
     and_then (for_loop (connect N k) (py_range N) (G0, g)) (\<lambda>(G, g1).
     and_then (np_full N (- 65)) (\<lambda>V0.
     and_then (setitem V0 0 60) (\<lambda>V.
     and_then (np_full N 0) (\<lambda>u.
     and_then (uniform_size 0.01 0.03 N g1) (\<lambda>(a, g2).
     and_then (uniform_size 0.1 0.3 N g2) (\<lambda>(b, g3).
     and_then (uniform_size (- 68) (- 58) N g3) (\<lambda>(c, g4).
     and_then (uniform_size 2 10 N g4) (\<lambda>(d, g5).
     and_then (np_zeros N) (\<lambda>I0.
     and_then (setitem I0 0 150) (\<lambda>I.
     and_then (np_zeros2 N N) (\<lambda>W0.
     and_then (for_loop assign_weight (edges G) (W0, g5)) (\<lambda>(W, g6).
       Inr (\<lparr>sN = N, sG = G, sW = W, sV = V, su = u, sI = I,
              params_a = a, params_b = b, params_c = c, params_d = d\<rparr>, g6))))))))))))))"

text \<open>
  Lines 129 to 132, as matplotlib runs them. \<open>FuncAnimation(fig, update, frames=T)\<close> raises
  ValueError for a negative frame count. \<open>ani.save\<close>, with no \<open>init_func\<close> given, first
  draws frame \<open>0\<close> through \<open>update\<close> and then calls \<open>update\<close> for each of the frames
  \<open>0, \<dots>, T - 1\<close>, which makes \<open>T + 1\<close> calls; with no frame at all nothing is drawn and
  the writer raises IndexError when it finishes. The interactive \<open>plt.show()\<close> of line 135
  is not modelled.
\<close>

definition func_animation :: "int \<Rightarrow> error + nat" where
  "func_animation frames = (if frames < 0 then Inl ValueError else Inr (nat frames))"

definition ani_save :: "nat \<Rightarrow> sim \<Rightarrow> rng \<Rightarrow> error + (sim list \<times> sim \<times> rng)" where
  "ani_save frames s g = (if frames = 0 then Inl IndexError else run (Suc frames) s g)"

text \<open>
  The whole script: initialisation, then the animation is created and saved. The result
  is the initial state and the states after each call of \<open>update\<close>.
\<close>

definition simulate ::
  "(nat \<Rightarrow> rng) \<Rightarrow> config \<Rightarrow> rng \<Rightarrow> error + (sim \<times> sim list)" where
  "simulate mt cfg g0 =
     and_then (initialise mt cfg g0) (\<lambda>(s0, g1).
     and_then (func_animation (cfg_T cfg)) (\<lambda>frames.
     and_then (ani_save frames s0 g1) (\<lambda>(tr, s, g). Inr (s0, tr))))"

section \<open>Derived notions used in the statements\<close>

text \<open>
  The neuron update of neuron \<open>i\<close> on the values a state holds, and the whole second loop
  of \<open>update\<close> read as one simultaneous pass: every neuron is updated from the state the
  pass started with.
\<close>

definition izh_at :: "sim \<Rightarrow> nat \<Rightarrow> real \<times> real" where
  "izh_at s i = izhikevich (sV s ! i) (su s ! i) (sI s ! i)
      (params_a s ! i) (params_b s ! i) (params_c s ! i) (params_d s ! i)"

definition dynamics_pass :: "sim \<Rightarrow> sim" where
  "dynamics_pass s =
     s\<lparr>sV := map (\<lambda>i. clip (fst (izh_at s i)) (- 80) 80) [0..<nat (sN s)],
       su := map (\<lambda>i. snd (izh_at s i)) [0..<nat (sN s)]\<rparr>"

text \<open>All per-neuron arrays have \<open>N\<close> entries.\<close>

definition lens_ok :: "sim \<Rightarrow> bool" where
  "lens_ok s \<longleftrightarrow>
     0 \<le> sN s \<and> length (sV s) = nat (sN s) \<and> length (su s) = nat (sN s) \<and>
     length (params_a s) = nat (sN s) \<and> length (params_b s) = nat (sN s) \<and>
     length (params_c s) = nat (sN s) \<and> length (params_d s) = nat (sN s)"

text \<open>The state after the first \<open>m\<close> neurons have been stepped in place.\<close>

definition stepped :: "nat \<Rightarrow> sim \<Rightarrow> sim" where
  "stepped m s =
     s\<lparr>sV := map (\<lambda>i. clip (fst (izh_at s i)) (- 80) 80) [0..<m] @ drop m (sV s),
       su := map (\<lambda>i. snd (izh_at s i)) [0..<m] @ drop m (su s)\<rparr>"

text \<open>\<open>j\<close> is a successor of \<open>i\<close>.\<close>

definition has_edge :: "digraph \<Rightarrow> nat \<Rightarrow> nat \<Rightarrow> bool" where
  "has_edge G i j = (case successors G i of Inl e \<Rightarrow> False | Inr ns \<Rightarrow> j \<in> set ns)"

text \<open>
  Every node below \<open>N\<close> is in the graph, has no repeated successor, and all its successors
  are below \<open>N\<close>; the weight matrix is \<open>N\<close> by \<open>N\<close>.
\<close>

definition graph_ok :: "sim \<Rightarrow> bool" where
  "graph_ok s \<longleftrightarrow>
     list_all (\<lambda>i. case map_of (sG s) i of
                      None \<Rightarrow> False
                    | Some ns \<Rightarrow> distinct ns \<and> list_all (\<lambda>j. j < nat (sN s)) ns)
       [0..<nat (sN s)]"

definition weights_ok :: "sim \<Rightarrow> bool" where
  "weights_ok s \<longleftrightarrow>
     length (sW s) = nat (sN s) \<and> list_all (\<lambda>row. length row = nat (sN s)) (sW s)"

definition wf_sim :: "sim \<Rightarrow> bool" where
  "wf_sim s \<longleftrightarrow> lens_ok s \<and> graph_ok s \<and> weights_ok s"

text \<open>
  What neuron \<open>i\<close> adds to the current of \<open>j\<close> in one step, and the current vector that
  results for given noise.
\<close>

definition drive :: "sim \<Rightarrow> nat \<Rightarrow> nat \<Rightarrow> real" where
  "drive s i j = sW s ! i ! j * (sV s ! i * 2 - params_c s ! i)"

definition contribution :: "sim \<Rightarrow> nat \<Rightarrow> nat \<Rightarrow> real" where
  "contribution s i j = (if sV s ! i > 0 \<and> has_edge (sG s) i j then drive s i j else 0)"

definition input_current :: "sim \<Rightarrow> real list \<Rightarrow> real list" where
  "input_current s noise =
     map (\<lambda>j. (\<Sum>i\<leftarrow>[0..<nat (sN s)]. contribution s i j) + noise ! j) [0..<nat (sN s)]"

text \<open>The noise that \<open>update\<close> draws in state \<open>s\<close> from generator \<open>g\<close>.\<close>

definition noise_of :: "sim \<Rightarrow> rng \<Rightarrow> real list" where
  "noise_of s g = fst (uniform_n (- 0.5) 0.5 (nat (sN s)) g)"

text \<open>The reset potentials lie in the range they are sampled from.\<close>

definition reset_in_range :: "sim \<Rightarrow> bool" where
  "reset_in_range s \<longleftrightarrow> list_all (\<lambda>c. - 68 \<le> c \<and> c \<le> - 58) (params_c s)"

definition ready :: "sim \<Rightarrow> bool" where
  "ready s \<longleftrightarrow> wf_sim s \<and> reset_in_range s"

text \<open>The state one step later, as a function of the state and the generator.\<close>

definition next_state :: "sim \<Rightarrow> rng \<Rightarrow> sim" where
  "next_state s g = dynamics_pass (s\<lparr>sI := input_current s (noise_of s g)\<rparr>)"

text \<open>The states that \<open>n\<close> consecutive steps go through.\<close>

fun states :: "nat \<Rightarrow> sim \<Rightarrow> rng \<Rightarrow> sim list" where
  "states 0 s g = []"
| "states (Suc n) s g =
     next_state s g # states n (next_state s g) (snd (uniform_n (- 0.5) 0.5 (nat (sN s)) g))"

text \<open>The states after each of \<open>n\<close> steps, without the final generator.\<close>

definition trajectory :: "nat \<Rightarrow> sim \<Rightarrow> rng \<Rightarrow> error + sim list" where
  "trajectory n s g = and_then (run n s g) (\<lambda>(tr, s', g'). Inr tr)"

text \<open>The updated potential of neuron \<open>i\<close> before the reset test, for the current in \<open>sI\<close>.\<close>

definition pre_reset :: "sim \<Rightarrow> nat \<Rightarrow> real" where
  "pre_reset s i =
     (let V = sV s ! i
      in V + (0.04 * V\<^sup>2 + 5 * V + 140 - su s ! i + sI s ! i))"

text \<open>
  A concrete instance: two neurons connected to each other, as initialisation builds them
  from a generator whose raw outputs are all zero.
\<close>

definition zero_rng :: rng where "zero_rng = (\<lambda>_. 0)"

definition demo_state :: sim where
  "demo_state = \<lparr>sN = 2, sG = [(0, [1]), (1, [0])], sW = [[0, 0.8], [0.8, 0]],
        sV = [60, - 65], su = [0, 0], sI = [150, 0],
        params_a = [0.01, 0.01], params_b = [0.1, 0.1], params_c = [- 68, - 68],
        params_d = [2, 2]\<rparr>"

text \<open>
  The successor list \<open>ns\<close> of node \<open>i\<close> has \<open>k\<close> entries, all different, none equal to
  \<open>i\<close>, all below \<open>n\<close>.
\<close>

definition regular :: "nat \<Rightarrow> int \<Rightarrow> nat \<Rightarrow> nat list \<Rightarrow> bool" where
  "regular n k i ns \<longleftrightarrow>
     int (length ns) = k \<and> distinct ns \<and> i \<notin> set ns \<and> list_all (\<lambda>j. j < n) ns"

text \<open>
  Concrete configurations with two neurons: out-degree one, the same with no frames, and
  (further down) out-degree equal to the number of nodes. The seeding function used with
  them yields the all-zero generator for every seed.
\<close>

definition zero_seeding :: "nat \<Rightarrow> rng" where
  "zero_seeding sd = zero_rng"

definition demo_config :: config where
  "demo_config = \<lparr>cfg_N = 2, cfg_k = 1, cfg_T = 1, cfg_seed = 42\<rparr>"


text \<open>Another generator state, with raw outputs \<open>0, 1, 2, \<dots>\<close>.\<close>

definition count_rng :: rng where
  "count_rng n = n"


section \<open>Properties\<close>

subsection \<open>Sequencing and the dynamics loop\<close>

lemma and_then_Inr [simp]: "and_then (Inr x) f = f x"
  by (simp add: and_then_def)

lemma and_then_Inl [simp]: "and_then (Inl e) f = Inl e"
  by (simp add: and_then_def)

lemma and_then_eq_Inr:
  "and_then m f = Inr y \<longleftrightarrow> (\<exists>x. m = Inr x \<and> f x = Inr y)"
  by (cases m) simp_all

lemma getitem_in [simp]: "i < length xs \<Longrightarrow> getitem xs i = Inr (xs ! i)"
  by (simp add: getitem_def)

lemma setitem_in [simp]: "i < length xs \<Longrightarrow> setitem xs i v = Inr (xs[i := v])"
  by (simp add: setitem_def)

lemma for_loop_append:
  "for_loop body (xs @ ys) s = and_then (for_loop body xs s) (for_loop body ys)"
  by (induction xs arbitrary: s) (simp_all add: and_then_def split: sum.splits)

lemma neuron_step_in:
  assumes "i < length (sV s)" "i < length (su s)" "i < length (sI s)"
    "i < length (params_a s)" "i < length (params_b s)"
    "i < length (params_c s)" "i < length (params_d s)"
  shows "neuron_step i s =
     Inr (s\<lparr>sV := (sV s)[i := clip (fst (izh_at s i)) (- 80) 80],
            su := (su s)[i := snd (izh_at s i)]\<rparr>)"
  using assms by (simp add: neuron_step_def izh_at_def split: prod.splits)

lemma izh_at_stepped:
  "m \<le> i \<Longrightarrow> m \<le> length (sV s) \<Longrightarrow> m \<le> length (su s) \<Longrightarrow> izh_at (stepped m s) i = izh_at s i"
  by (simp add: izh_at_def stepped_def nth_append)

lemma upd_prefix:
  "m < length xs \<Longrightarrow> (map f [0..<m] @ drop m xs)[m := f m] = map f [0..<Suc m] @ drop (Suc m) xs"
  by (simp add: list_update_append Cons_nth_drop_Suc [symmetric] )

lemma neuron_loop_prefix:
  assumes "lens_ok s" "length (sI s) = nat (sN s)"
  shows "m \<le> nat (sN s) \<Longrightarrow> for_loop neuron_step [0..<m] s = Inr (stepped m s)"
proof (induction m)
  case 0
  then show ?case by (simp add: stepped_def)
next
  case (Suc m)
  then have m: "m < nat (sN s)" by simp
  have st: "neuron_step m (stepped m s) = Inr (stepped (Suc m) s)"
  proof -
    have "neuron_step m (stepped m s) =
       Inr ((stepped m s)\<lparr>sV := (sV (stepped m s))[m := clip (fst (izh_at (stepped m s) m)) (- 80) 80],
            su := (su (stepped m s))[m := snd (izh_at (stepped m s) m)]\<rparr>)"
      using assms m by (intro neuron_step_in) (simp_all add: stepped_def lens_ok_def)
    also have "izh_at (stepped m s) m = izh_at s m"
      using assms m by (simp add: izh_at_stepped lens_ok_def)
    finally show ?thesis
      using assms m
        upd_prefix [of m "sV s" "\<lambda>i. clip (fst (izh_at s i)) (- 80) 80"]
        upd_prefix [of m "su s" "\<lambda>i. snd (izh_at s i)"]
      by (simp add: stepped_def lens_ok_def del: upt_Suc)
  qed
  from Suc m st show ?case
    by (simp add: for_loop_append)
qed

lemma neuron_loop:
  assumes "lens_ok s" "length (sI s) = nat (sN s)"
  shows "for_loop neuron_step (py_range (sN s)) s = Inr (dynamics_pass s)"
  using neuron_loop_prefix [OF assms, of "nat (sN s)"] assms
  by (simp add: py_range_def stepped_def dynamics_pass_def lens_ok_def)

subsection \<open>The propagation loops and the noise\<close>

lemma graph_okD:
  assumes "graph_ok s" "i < nat (sN s)"
  shows "\<exists>ns. map_of (sG s) i = Some ns \<and> distinct ns \<and> (\<forall>j\<in>set ns. j < nat (sN s))"
proof -
  from assms have "i \<in> set [0..<nat (sN s)]" by simp
  with assms(1) have
    "case map_of (sG s) i of None \<Rightarrow> False
     | Some ns \<Rightarrow> distinct ns \<and> list_all (\<lambda>j. j < nat (sN s)) ns"
    unfolding graph_ok_def list_all_iff by (rule bspec)
  then show ?thesis
    by (cases "map_of (sG s) i") (simp_all add: list_all_iff)
qed

lemma weights_okD:
  assumes "weights_ok s" "i < nat (sN s)"
  shows "i < length (sW s) \<and> length (sW s ! i) = nat (sN s)"
proof -
  from assms have i: "i < length (sW s)" by (simp add: weights_ok_def)
  then have "sW s ! i \<in> set (sW s)" by simp
  moreover from assms(1) have "\<forall>row\<in>set (sW s). length row = nat (sN s)"
    by (simp add: weights_ok_def list_all_iff)
  ultimately show ?thesis using i by blast
qed

lemma deliver_in:
  assumes "lens_ok s" "weights_ok s" "i < nat (sN s)" "j < nat (sN s)" "length acc = nat (sN s)"
  shows "deliver s i j acc = Inr (acc[j := acc ! j + drive s i j])"
  using assms weights_okD [OF assms(2,3)]
  by (simp add: deliver_def getitem2_def drive_def lens_ok_def)

lemma deliver_loop:
  assumes "lens_ok s" "weights_ok s" "i < nat (sN s)"
  shows "distinct ns \<Longrightarrow> \<forall>j\<in>set ns. j < nat (sN s) \<Longrightarrow> length acc = nat (sN s) \<Longrightarrow>
     \<exists>acc'. for_loop (deliver s i) ns acc = Inr acc' \<and> length acc' = nat (sN s) \<and>
        (\<forall>j<nat (sN s). acc' ! j = acc ! j + (if j \<in> set ns then drive s i j else 0))"
proof (induction ns arbitrary: acc)
  case Nil
  then show ?case by simp
next
  case (Cons n ns)
  let ?acc1 = "acc[n := acc ! n + drive s i n]"
  have d: "deliver s i n acc = Inr ?acc1"
    using assms Cons.prems by (intro deliver_in) simp_all
  have "\<exists>acc'. for_loop (deliver s i) ns ?acc1 = Inr acc' \<and> length acc' = nat (sN s) \<and>
        (\<forall>j<nat (sN s). acc' ! j = ?acc1 ! j + (if j \<in> set ns then drive s i j else 0))"
    using Cons.prems by (intro Cons.IH) simp_all
  then obtain acc' where a: "for_loop (deliver s i) ns ?acc1 = Inr acc'"
      "length acc' = nat (sN s)"
      "\<forall>j<nat (sN s). acc' ! j = ?acc1 ! j + (if j \<in> set ns then drive s i j else 0)"
    by blast
  have "\<forall>j<nat (sN s). acc' ! j = acc ! j + (if j \<in> set (n # ns) then drive s i j else 0)"
    using a(3) Cons.prems by (auto simp: nth_list_update)
  with a d show ?case by simp
qed

lemma propagate_from_in:
  assumes "wf_sim s" "i < nat (sN s)" "length acc = nat (sN s)"
  shows "\<exists>acc'. propagate_from s i acc = Inr acc' \<and> length acc' = nat (sN s) \<and>
        (\<forall>j<nat (sN s). acc' ! j = acc ! j + contribution s i j)"
proof -
  from assms have l: "lens_ok s" and w: "weights_ok s" and g: "graph_ok s"
    by (simp_all add: wf_sim_def)
  from graph_okD [OF g assms(2)] obtain ns where
    ns: "map_of (sG s) i = Some ns" "distinct ns" "\<forall>j\<in>set ns. j < nat (sN s)" by blast
  have vi: "getitem (sV s) i = Inr (sV s ! i)"
    using l assms(2) by (simp add: lens_ok_def)
  show ?thesis
  proof (cases "sV s ! i > 0")
    case True
    from deliver_loop [OF l w assms(2) ns(2,3) assms(3)] obtain acc' where
      a: "for_loop (deliver s i) ns acc = Inr acc'" "length acc' = nat (sN s)"
         "\<forall>j<nat (sN s). acc' ! j = acc ! j + (if j \<in> set ns then drive s i j else 0)"
      by blast
    have "propagate_from s i acc = Inr acc'"
      using True vi ns(1) a(1) by (simp add: propagate_from_def successors_def)
    moreover have "\<forall>j<nat (sN s). acc' ! j = acc ! j + contribution s i j"
      using a(3) True ns(1) by (simp add: contribution_def has_edge_def successors_def)
    ultimately show ?thesis using a(2) by blast
  next
    case False
    then show ?thesis
      using vi assms(3) by (simp add: propagate_from_def contribution_def)
  qed
qed

lemma propagate_loop:
  assumes "wf_sim s" "length acc = nat (sN s)"
  shows "m \<le> nat (sN s) \<Longrightarrow>
     \<exists>acc'. for_loop (propagate_from s) [0..<m] acc = Inr acc' \<and> length acc' = nat (sN s) \<and>
        (\<forall>j<nat (sN s). acc' ! j = acc ! j + (\<Sum>i\<leftarrow>[0..<m]. contribution s i j))"
proof (induction m)
  case 0
  then show ?case using assms by simp
next
  case (Suc m)
  then obtain acc1 where a1: "for_loop (propagate_from s) [0..<m] acc = Inr acc1"
     "length acc1 = nat (sN s)"
     "\<forall>j<nat (sN s). acc1 ! j = acc ! j + (\<Sum>i\<leftarrow>[0..<m]. contribution s i j)"
    by auto
  from Suc.prems have m: "m < nat (sN s)" by simp
  from propagate_from_in [OF assms(1) m a1(2)] obtain acc2 where
    a2: "propagate_from s m acc1 = Inr acc2" "length acc2 = nat (sN s)"
        "\<forall>j<nat (sN s). acc2 ! j = acc1 ! j + contribution s m j" by blast
  have "for_loop (propagate_from s) [0..<Suc m] acc = Inr acc2"
    using a1(1) a2(1) by (simp add: for_loop_append)
  moreover have "\<forall>j<nat (sN s). acc2 ! j = acc ! j + (\<Sum>i\<leftarrow>[0..<Suc m]. contribution s i j)"
    using a1(3) a2(3) by simp
  ultimately show ?case using a2(2) by blast
qed

lemma random_sample_unit: "0 \<le> fst (random_sample g) \<and> fst (random_sample g) < 1"
proof -
  have "g 0 mod 2 ^ 53 < (2::nat) ^ 53" by simp
  then have "real (g 0 mod 2 ^ 53) < real (2 ^ 53)"
    by (simp only: of_nat_less_iff)
  then show ?thesis by (simp add: random_sample_def)
qed

lemma uniform_range:
  assumes "lo \<le> hi"
  shows "lo \<le> fst (uniform lo hi g) \<and> fst (uniform lo hi g) \<le> hi"
proof -
  obtain r g' where r: "random_sample g = (r, g')" by (cases "random_sample g")
  with random_sample_unit [of g] have u: "0 \<le> r" "r < 1" by simp_all
  have "(hi - lo) * r \<le> (hi - lo) * 1"
    using assms u by (intro mult_left_mono) simp_all
  moreover have "0 \<le> (hi - lo) * r" using assms u by simp
  ultimately show ?thesis using r by (simp add: uniform_def)
qed

lemma uniform_n_length: "length (fst (uniform_n lo hi n g)) = n"
proof (induction n arbitrary: g)
  case 0
  then show ?case by simp
next
  case (Suc n)
  obtain y g1 where y: "uniform lo hi g = (y, g1)" by (cases "uniform lo hi g")
  obtain ys g2 where ys: "uniform_n lo hi n g1 = (ys, g2)" by (cases "uniform_n lo hi n g1")
  from Suc [of g1] y ys show ?case by simp
qed

lemma uniform_n_range:
  "lo \<le> hi \<Longrightarrow> x \<in> set (fst (uniform_n lo hi n g)) \<Longrightarrow> lo \<le> x \<and> x \<le> hi"
proof (induction n arbitrary: g)
  case 0
  then show ?case by simp
next
  case (Suc n)
  obtain y g1 where y: "uniform lo hi g = (y, g1)" by (cases "uniform lo hi g")
  obtain ys g2 where ys: "uniform_n lo hi n g1 = (ys, g2)" by (cases "uniform_n lo hi n g1")
  from Suc.prems(2) y ys have "x = y \<or> x \<in> set ys" by simp
  then show ?case
  proof
    assume "x = y"
    with uniform_range [OF Suc.prems(1), of g] y show ?thesis by simp
  next
    assume "x \<in> set ys"
    with Suc.IH [OF Suc.prems(1), of g1] ys show ?thesis by simp
  qed
qed

lemma update_eq:
  assumes "wf_sim s"
  shows "update s g =
     Inr (dynamics_pass (s\<lparr>sI := input_current s (noise_of s g)\<rparr>),
          snd (uniform_n (- 0.5) 0.5 (nat (sN s)) g))"
proof -
  let ?n = "nat (sN s)"
  from assms have l: "lens_ok s" by (simp add: wf_sim_def)
  then have N: "0 \<le> sN s" by (simp add: lens_ok_def)
  have z: "np_zeros (sN s) = Inr (replicate ?n 0)"
    using N by (simp add: np_zeros_def np_full_def)
  from propagate_loop [OF assms, of "replicate ?n 0" ?n] obtain new_I where
    p: "for_loop (propagate_from s) [0..<?n] (replicate ?n 0) = Inr new_I"
       "length new_I = ?n"
       "\<forall>j<?n. new_I ! j = replicate ?n 0 ! j + (\<Sum>i\<leftarrow>[0..<?n]. contribution s i j)"
    by auto
  obtain noise g' where u: "uniform_n (- 0.5) 0.5 ?n g = (noise, g')"
    by (cases "uniform_n (- 0.5) 0.5 ?n g")
  then have ln: "length noise = ?n" using uniform_n_length [of "- 0.5" "0.5" ?n g] by simp
  have cur: "map2 (+) new_I noise = input_current s noise"
    using p(2,3) ln by (intro nth_equalityI) (simp_all add: input_current_def)
  let ?s1 = "s\<lparr>sI := input_current s noise\<rparr>"
  have "lens_ok ?s1" "length (sI ?s1) = nat (sN ?s1)"
    using l by (simp_all add: lens_ok_def input_current_def)
  from neuron_loop [OF this] have d: "for_loop neuron_step (py_range (sN s)) ?s1 = Inr (dynamics_pass ?s1)"
    by simp
  show ?thesis
    using z p(1) u N cur d
    by (simp add: update_def py_range_def uniform_size_def noise_of_def)
qed

subsection \<open>One step as a function of the state, and runs\<close>

lemma update_next: "wf_sim s \<Longrightarrow> update s g = Inr (next_state s g, snd (uniform_n (- 0.5) 0.5 (nat (sN s)) g))"
  by (simp add: update_eq next_state_def)

lemma next_state_static:
  "sN (next_state s g) = sN s" "sG (next_state s g) = sG s" "sW (next_state s g) = sW s"
  "params_a (next_state s g) = params_a s" "params_b (next_state s g) = params_b s"
  "params_c (next_state s g) = params_c s" "params_d (next_state s g) = params_d s"
  "sI (next_state s g) = input_current s (noise_of s g)"
  by (simp_all add: next_state_def dynamics_pass_def)

lemma next_state_lengths:
  "length (sV (next_state s g)) = nat (sN s)" "length (su (next_state s g)) = nat (sN s)"
  "length (sI (next_state s g)) = nat (sN s)"
  by (simp_all add: next_state_def dynamics_pass_def input_current_def)

lemma next_state_V:
  "i < nat (sN s) \<Longrightarrow>
     sV (next_state s g) ! i =
       clip (fst (izh_at (s\<lparr>sI := input_current s (noise_of s g)\<rparr>) i)) (- 80) 80"
  by (simp add: next_state_def dynamics_pass_def)

lemma next_state_u:
  "i < nat (sN s) \<Longrightarrow>
     su (next_state s g) ! i = snd (izh_at (s\<lparr>sI := input_current s (noise_of s g)\<rparr>) i)"
  by (simp add: next_state_def dynamics_pass_def)

lemma next_state_wf: "wf_sim s \<Longrightarrow> wf_sim (next_state s g)"
  unfolding wf_sim_def lens_ok_def graph_ok_def weights_ok_def next_state_static
    next_state_lengths
  by simp

lemma next_state_ready: "ready s \<Longrightarrow> ready (next_state s g)"
  unfolding ready_def reset_in_range_def next_state_static
  by (simp add: next_state_wf)

lemma clip_bounds: "lo \<le> hi \<Longrightarrow> lo \<le> clip x lo hi \<and> clip x lo hi \<le> hi"
  by (simp add: clip_def)

lemma next_state_clamped:
  assumes "v \<in> set (sV (next_state s g))"
  shows "- 80 \<le> v \<and> v \<le> 80"
proof -
  from assms obtain i where "i < nat (sN s)" "v = sV (next_state s g) ! i"
    by (metis in_set_conv_nth next_state_lengths(1))
  then show ?thesis
    using clip_bounds [of "- 80" 80] by (simp add: next_state_V)
qed

lemma run_total:
  "wf_sim s \<Longrightarrow> \<exists>s' g'. run n s g = Inr (states n s g, s', g')"
proof (induction n arbitrary: s g)
  case 0
  then show ?case by simp
next
  case (Suc n)
  let ?s1 = "next_state s g" and ?g1 = "snd (uniform_n (- 0.5) 0.5 (nat (sN s)) g)"
  from Suc.prems have "wf_sim ?s1" by (rule next_state_wf)
  from Suc.IH [OF this, of ?g1] obtain s' g' where "run n ?s1 ?g1 = Inr (states n ?s1 ?g1, s', g')"
    by blast
  then show ?case using Suc.prems by (simp add: update_next)
qed

lemma states_length: "length (states n s g) = n"
  by (induction n arbitrary: s g) simp_all

lemma states_clamped:
  "x \<in> set (states n s g) \<Longrightarrow> v \<in> set (sV x) \<Longrightarrow> - 80 \<le> v \<and> v \<le> 80"
proof (induction n arbitrary: s g)
  case 0
  then show ?case by simp
next
  case (Suc n)
  from Suc.prems(1) have "x = next_state s g \<or>
      x \<in> set (states n (next_state s g) (snd (uniform_n (- 0.5) 0.5 (nat (sN s)) g)))"
    by simp
  then show ?case
  proof
    assume "x = next_state s g"
    with Suc.prems(2) show ?thesis by (simp add: next_state_clamped)
  next
    assume "x \<in> set (states n (next_state s g) (snd (uniform_n (- 0.5) 0.5 (nat (sN s)) g)))"
    from Suc.IH [OF this Suc.prems(2)] show ?thesis .
  qed
qed

lemma states_sN:
  "x \<in> set (states n s g) \<Longrightarrow> sN x = sN s \<and> length (sV x) = nat (sN s)"
proof (induction n arbitrary: s g)
  case 0
  then show ?case by simp
next
  case (Suc n)
  from Suc.prems(1) have "x = next_state s g \<or>
      x \<in> set (states n (next_state s g) (snd (uniform_n (- 0.5) 0.5 (nat (sN s)) g)))"
    by simp
  then show ?case
  proof
    assume "x = next_state s g"
    then show ?thesis by (simp add: next_state_static next_state_lengths)
  next
    assume "x \<in> set (states n (next_state s g) (snd (uniform_n (- 0.5) 0.5 (nat (sN s)) g)))"
    from Suc.IH [OF this] show ?thesis by (simp add: next_state_static)
  qed
qed

lemma states_ready:
  "ready s \<Longrightarrow> x \<in> set (states n s g) \<Longrightarrow> ready x"
proof (induction n arbitrary: s g)
  case 0
  then show ?case by simp
next
  case (Suc n)
  from Suc.prems(2) have "x = next_state s g \<or>
      x \<in> set (states n (next_state s g) (snd (uniform_n (- 0.5) 0.5 (nat (sN s)) g)))"
    by simp
  then show ?case
  proof
    assume "x = next_state s g"
    with Suc.prems(1) show ?thesis by (simp add: next_state_ready)
  next
    assume "x \<in> set (states n (next_state s g) (snd (uniform_n (- 0.5) 0.5 (nat (sN s)) g)))"
    with Suc.IH [OF next_state_ready [OF Suc.prems(1)]] show ?thesis by blast
  qed
qed

text \<open>
  Claim C4 (clamp invariant). From any well-formed state, \<open>n\<close> consecutive calls of
  \<open>update\<close> all return, and in every state they produce all \<open>N\<close> stored membrane
  potentials lie in the clamp range \<open>[-80, 80]\<close>.
\<close>
theorem clamp_invariant:
  assumes "wf_sim s"
  shows "\<exists>tr s' g'. run n s g = Inr (tr, s', g') \<and> length tr = n \<and>
           (\<forall>x\<in>set tr. length (sV x) = nat (sN s) \<and> (\<forall>v\<in>set (sV x). - 80 \<le> v \<and> v \<le> 80))"
proof -
  from run_total [OF assms, of n g] obtain s' g' where
    r: "run n s g = Inr (states n s g, s', g')" by blast
  have "\<forall>x\<in>set (states n s g).
          length (sV x) = nat (sN s) \<and> (\<forall>v\<in>set (sV x). - 80 \<le> v \<and> v \<le> 80)"
    using states_sN states_clamped by blast
  with r states_length show ?thesis by blast
qed

subsection \<open>The concrete instance and the claims about one step\<close>

lemma rng_tail_zero: "rng_tail zero_rng = zero_rng"
  by (simp add: rng_tail_def zero_rng_def)

lemma upt_2: "[0..<2] = [0, 1]" by (simp add: upt_rec)

lemma demo_wf: "wf_sim demo_state"
  unfolding wf_sim_def
  by (intro conjI) (simp_all add: lens_ok_def graph_ok_def weights_ok_def demo_state_def upt_2)

lemma demo_ready: "ready demo_state"
  unfolding ready_def
  by (intro conjI demo_wf) (simp add: reset_in_range_def demo_state_def)

lemma demo_noise: "uniform_n (- (1 / 2)) (1 / 2) 2 zero_rng = ([- (1 / 2), - (1 / 2)], zero_rng)"
  by (simp add: numeral_2_eq_2 uniform_def random_sample_def rng_tail_zero) (simp add: zero_rng_def)

lemma replicate_2: "replicate 2 x = [x, x]"
  by (simp add: numeral_2_eq_2)

lemma demo_update: "update demo_state zero_rng =
   Inr (demo_state\<lparr>sV := [- 68, - 68], su := [2.06, 1.935], sI := [- 0.5, 149.9]\<rparr>, zero_rng)"
  by (simp add: update_def np_zeros_def np_full_def py_range_def upt_2 propagate_from_def
      demo_state_def getitem_def setitem_def getitem2_def successors_def deliver_def
      uniform_size_def demo_noise neuron_step_def izhikevich_def clip_def power2_eq_square
      replicate_2)

lemma izhikevich_eq:
  "izhikevich V u I a b c d =
     (if 30 \<le> V + (0.04 * V\<^sup>2 + 5 * V + 140 - u + I)
      then (c, u + a * (b * V - u) + d)
      else (V + (0.04 * V\<^sup>2 + 5 * V + 140 - u + I), u + a * (b * V - u)))"
  by (simp add: izhikevich_def Let_def)

lemma reset_in_rangeD:
  "reset_in_range s \<Longrightarrow> i < length (params_c s) \<Longrightarrow>
     - 68 \<le> params_c s ! i \<and> params_c s ! i \<le> - 58"
  by (simp add: reset_in_range_def list_all_length)

lemma wf_len_c: "wf_sim s \<Longrightarrow> length (params_c s) = nat (sN s)"
  by (simp add: wf_sim_def lens_ok_def)

text \<open>
  Claim C5 (two phases in order). In a well-formed state \<open>update\<close> returns, and its result
  is the simultaneous per-neuron dynamics pass applied to the previous state in which only
  the current has been replaced by the vector computed from the previous potentials: no
  neuron's update sees a value another neuron wrote in the same step.
\<close>
theorem two_phase_step:
  assumes "wf_sim s"
  shows "update s g =
     Inr (dynamics_pass (s\<lparr>sI := input_current s (noise_of s g)\<rparr>),
          snd (uniform_n (- 0.5) 0.5 (nat (sN s)) g))"
  using assms by (rule update_eq)

text \<open>
  Claim C1 (update and reset rule). In every step from a well-formed state with reset
  potentials in their sampled range, and for every neuron \<open>i\<close>: with
  \<open>dV = 0.04 V\<^sup>2 + 5 V + 140 - u + I\<close> and \<open>du = a (b V - u)\<close>, the neuron function returns
  \<open>(c, u + du + d)\<close> if \<open>V + dV \<ge> 30\<close> and \<open>(V + dV, u + du)\<close> otherwise; when
  \<open>V + dV \<ge> 30\<close> the stored potential is \<open>c\<close> and the stored recovery variable is
  \<open>u + du + d\<close>, otherwise the stored potential is the clamped \<open>V + dV\<close> and the recovery
  variable \<open>u + du\<close>.
\<close>
theorem reset_rule:
  assumes "ready s" "i < nat (sN s)"
  shows "\<exists>s' g'. update s g = Inr (s', g') \<and>
     (let V = sV s ! i; u = su s ! i; I = sI s' ! i;
          a = params_a s ! i; b = params_b s ! i; c = params_c s ! i; d = params_d s ! i;
          dV = 0.04 * V\<^sup>2 + 5 * V + 140 - u + I;
          du = a * (b * V - u)
      in izhikevich V u I a b c d =
           (if 30 \<le> V + dV then (c, u + du + d) else (V + dV, u + du)) \<and>
         (30 \<le> V + dV \<longrightarrow> sV s' ! i = c \<and> su s' ! i = u + du + d) \<and>
         (V + dV < 30 \<longrightarrow> sV s' ! i = clip (V + dV) (- 80) 80 \<and> su s' ! i = u + du))"
proof -
  from assms have wf: "wf_sim s" and rr: "reset_in_range s" by (simp_all add: ready_def)
  from reset_in_rangeD [OF rr] wf_len_c [OF wf] assms(2)
  have c: "- 68 \<le> params_c s ! i" "params_c s ! i \<le> - 58" by simp_all
  then have cc: "clip (params_c s ! i) (- 80) 80 = params_c s ! i"
    by (simp add: clip_def)
  let ?s' = "next_state s g"
  have "update s g = Inr (?s', snd (uniform_n (- 0.5) 0.5 (nat (sN s)) g))"
    using wf by (rule update_next)
  moreover have "sV ?s' ! i = clip (fst (izh_at (s\<lparr>sI := sI ?s'\<rparr>) i)) (- 80) 80"
    using assms(2) by (simp add: next_state_V next_state_static)
  moreover have "su ?s' ! i = snd (izh_at (s\<lparr>sI := sI ?s'\<rparr>) i)"
    using assms(2) by (simp add: next_state_u next_state_static)
  ultimately show ?thesis
    using cc by (simp add: izh_at_def izhikevich_eq Let_def)
qed

theorem two_phase_step_witness:
  "wf_sim demo_state \<and>
   update demo_state zero_rng =
     Inr (dynamics_pass (demo_state\<lparr>sI := input_current demo_state (noise_of demo_state zero_rng)\<rparr>),
          snd (uniform_n (- 0.5) 0.5 (nat (sN demo_state)) zero_rng)) \<and>
   update demo_state zero_rng =
     Inr (demo_state\<lparr>sV := [- 68, - 68], su := [2.06, 1.935], sI := [- 0.5, 149.9]\<rparr>, zero_rng)"
  using two_phase_step [OF demo_wf, of zero_rng] demo_wf demo_update by simp

lemma demo_step_values:
  "update demo_state zero_rng = Inr (s', g') \<Longrightarrow>
     sV s' = [- 68, - 68] \<and> su s' = [2.06, 1.935] \<and> sI s' = [- 0.5, 149.9]"
  by (auto simp: demo_update)

theorem reset_rule_witness:
  "ready demo_state \<and> (0::nat) < nat (sN demo_state) \<and>
   (\<exists>s' g'. update demo_state zero_rng = Inr (s', g') \<and>
      30 \<le> sV demo_state ! 0 +
        (0.04 * (sV demo_state ! 0)\<^sup>2 + 5 * sV demo_state ! 0 + 140 - su demo_state ! 0 + sI s' ! 0) \<and>
      sV s' ! 0 = params_c demo_state ! 0 \<and>
      su s' ! 0 = su demo_state ! 0 +
         params_a demo_state ! 0 * (params_b demo_state ! 0 * sV demo_state ! 0 - su demo_state ! 0) +
         params_d demo_state ! 0)"
proof -
  have n: "(0::nat) < nat (sN demo_state)" by (simp add: demo_state_def)
  from reset_rule [OF demo_ready n, of zero_rng] obtain s' g' where
    u: "update demo_state zero_rng = Inr (s', g')" by blast
  from demo_step_values [OF u] have
    "30 \<le> sV demo_state ! 0 +
        (0.04 * (sV demo_state ! 0)\<^sup>2 + 5 * sV demo_state ! 0 + 140 - su demo_state ! 0 + sI s' ! 0)"
    "sV s' ! 0 = params_c demo_state ! 0"
    "su s' ! 0 = su demo_state ! 0 +
         params_a demo_state ! 0 * (params_b demo_state ! 0 * sV demo_state ! 0 - su demo_state ! 0) +
         params_d demo_state ! 0"
    by (simp_all add: demo_state_def power2_eq_square)
  with u demo_ready n show ?thesis by blast
qed

lemma contribution_sum:
  "(\<Sum>i\<leftarrow>[0..<n]. contribution s i j) =
     (\<Sum>i\<in>{i \<in> {0..<n}. 0 < sV s ! i \<and> has_edge (sG s) i j}.
        sW s ! i ! j * (2 * sV s ! i - params_c s ! i))"
proof -
  have "(\<Sum>i\<leftarrow>[0..<n]. contribution s i j) = (\<Sum>i\<in>{0..<n}. contribution s i j)"
    by (simp add: interv_sum_list_conv_sum_set_nat)
  also have "\<dots> = (\<Sum>i\<in>{0..<n}. if 0 < sV s ! i \<and> has_edge (sG s) i j
                       then sW s ! i ! j * (2 * sV s ! i - params_c s ! i) else 0)"
    by (intro sum.cong refl) (simp add: contribution_def drive_def mult.commute)
  also have "\<dots> = (\<Sum>i\<in>{i \<in> {0..<n}. 0 < sV s ! i \<and> has_edge (sG s) i j}.
        sW s ! i ! j * (2 * sV s ! i - params_c s ! i))"
    by (rule sum.inter_filter [symmetric]) simp
  finally show ?thesis .
qed

lemma noise_bounds:
  assumes "j < nat (sN s)"
  shows "- 0.5 \<le> noise_of s g ! j \<and> noise_of s g ! j \<le> 0.5"
proof -
  have "length (noise_of s g) = nat (sN s)"
    by (simp add: noise_of_def uniform_n_length)
  with assms have "noise_of s g ! j \<in> set (fst (uniform_n (- 0.5) 0.5 (nat (sN s)) g))"
    by (simp add: noise_of_def)
  then show ?thesis
    by (intro uniform_n_range [of "- 0.5" "0.5"]) simp_all
qed

lemma update_current:
  assumes "j < nat (sN s)"
  shows "sI (next_state s g) ! j =
       (\<Sum>i\<in>{i \<in> {0..<nat (sN s)}. 0 < sV s ! i \<and> has_edge (sG s) i j}.
          sW s ! i ! j * (2 * sV s ! i - params_c s ! i)) + noise_of s g ! j"
proof -
  have "sI (next_state s g) ! j =
       (\<Sum>i\<leftarrow>[0..<nat (sN s)]. contribution s i j) + noise_of s g ! j"
    using assms by (simp add: next_state_static input_current_def)
  then show ?thesis by (simp add: contribution_sum)
qed

text \<open>
  Claim C2 (input current). In every step from a well-formed state, the current of neuron
  \<open>j\<close> is the sum, over the neurons \<open>i\<close> with potential above \<open>0\<close> and an edge to \<open>j\<close>, of
  \<open>W[i, j] * (2 V[i] - c[i])\<close>, plus the \<open>j\<close>-th noise draw, which lies in \<open>[-0.5, 0.5]\<close>;
  neurons with potential at most \<open>0\<close> are not in the sum.
\<close>

theorem input_current_sum:
  assumes "wf_sim s" "j < nat (sN s)"
  shows "\<exists>s' g'. update s g = Inr (s', g') \<and>
     sI s' ! j =
       (\<Sum>i\<in>{i \<in> {0..<nat (sN s)}. 0 < sV s ! i \<and> has_edge (sG s) i j}.
          sW s ! i ! j * (2 * sV s ! i - params_c s ! i)) + noise_of s g ! j \<and>
     - 0.5 \<le> noise_of s g ! j \<and> noise_of s g ! j \<le> 0.5"
  using update_next [OF assms(1), of g] noise_bounds [OF assms(2), of g]
    update_current [OF assms(2), of g]
  by simp

lemma deliver_sI: "deliver (s\<lparr>sI := x\<rparr>) = deliver s"
  by (simp add: deliver_def fun_eq_iff)

lemma propagate_from_sI: "propagate_from (s\<lparr>sI := x\<rparr>) = propagate_from s"
  by (simp add: propagate_from_def fun_eq_iff deliver_sI cong: if_cong)

lemma update_sI: "update (s\<lparr>sI := x\<rparr>) g = update s g"
  by (simp add: update_def propagate_from_sI)

lemma trajectory_sI: "trajectory n (s\<lparr>sI := x\<rparr>) g = trajectory n s g"
  by (cases n) (simp_all add: trajectory_def update_sI)

text \<open>
  Claim C8 (initial current never read). Replacing the input-current array of a state by
  any other array changes neither the result of the next step nor the trajectory of any
  number of steps: \<open>update\<close> overwrites the current before the dynamics read it.
\<close>

theorem initial_current_irrelevant:
  "update (s\<lparr>sI := cur\<rparr>) g = update s g \<and>
   trajectory n (s\<lparr>sI := cur\<rparr>) g = trajectory n s g"
  by (simp add: update_sI trajectory_sI)

lemma izhikevich_below:
  assumes "c < 30"
  shows "fst (izhikevich V u I a b c d) < 30"
  using assms by (simp add: izhikevich_eq)

lemma clip_below: "x < 30 \<Longrightarrow> clip x (- 80) 80 = max x (- 80) \<and> clip x (- 80) 80 < 30"
  by (simp add: clip_def)

text \<open>
  Claim C9 (stored potential below 30). With every reset potential in \<open>[-68, -58]\<close>, a
  step from a well-formed state returns a state of the same kind in which every stored
  potential is below \<open>30\<close> and equals the result of the neuron function clamped from
  below only: the upper bound \<open>80\<close> never binds.
\<close>

theorem below_threshold:
  assumes "ready s"
  shows "\<exists>s' g'. update s g = Inr (s', g') \<and> ready s' \<and>
     (\<forall>i<nat (sN s). sV s' ! i < 30 \<and>
        sV s' ! i = max (fst (izh_at (s\<lparr>sI := sI s'\<rparr>) i)) (- 80))"
proof -
  from assms have wf: "wf_sim s" and rr: "reset_in_range s" by (simp_all add: ready_def)
  let ?s' = "next_state s g"
  have "sV ?s' ! i < 30 \<and> sV ?s' ! i = max (fst (izh_at (s\<lparr>sI := sI ?s'\<rparr>) i)) (- 80)"
    if i: "i < nat (sN s)" for i
  proof -
    from reset_in_rangeD [OF rr] wf_len_c [OF wf] i have "params_c s ! i < 30" by fastforce
    then have b: "fst (izh_at (s\<lparr>sI := sI ?s'\<rparr>) i) < 30"
      by (simp add: izh_at_def izhikevich_below)
    from clip_below [OF b] b show ?thesis
      using i by (simp add: next_state_V next_state_static)
  qed
  then have "\<forall>i<nat (sN s). sV ?s' ! i < 30 \<and>
        sV ?s' ! i = max (fst (izh_at (s\<lparr>sI := sI ?s'\<rparr>) i)) (- 80)"
    by blast
  with update_next [OF wf, of g] next_state_ready [OF assms, of g] show ?thesis
    by blast
qed

text \<open>
  Claim C10 (no propagation right after a reset). If the reset branch fires for neuron \<open>i\<close>
  in a step, the stored potential is \<open>c[i]\<close>, which lies in \<open>[-68, -58]\<close> and so is not
  above the firing threshold \<open>0\<close>; in the next step the loop body for \<open>i\<close> leaves the
  accumulated current unchanged and \<open>i\<close> contributes \<open>0\<close> to every neuron.
\<close>

theorem no_propagation_after_reset:
  assumes "ready s" "i < nat (sN s)"
    and "30 \<le> pre_reset (s\<lparr>sI := input_current s (noise_of s g)\<rparr>) i"
  shows "\<exists>s' g'. update s g = Inr (s', g') \<and>
     sV s' ! i = params_c s' ! i \<and> - 68 \<le> sV s' ! i \<and> sV s' ! i \<le> - 58 \<and>
     \<not> 0 < sV s' ! i \<and>
     (\<forall>new_I. propagate_from s' i new_I = Inr new_I) \<and>
     (\<forall>j. contribution s' i j = 0) \<and>
     (\<exists>s'' g''. update s' g' = Inr (s'', g'') \<and>
        (\<forall>j<nat (sN s). sI s'' ! j =
           (\<Sum>x\<in>{x \<in> {0..<nat (sN s)} - {i}. 0 < sV s' ! x \<and> has_edge (sG s') x j}.
              sW s' ! x ! j * (2 * sV s' ! x - params_c s' ! x)) + noise_of s' g' ! j))"
proof -
  from assms have wf: "wf_sim s" and rr: "reset_in_range s" by (simp_all add: ready_def)
  from reset_in_rangeD [OF rr] wf_len_c [OF wf] assms(2)
  have c: "- 68 \<le> params_c s ! i" "params_c s ! i \<le> - 58" by simp_all
  let ?s' = "next_state s g" and ?g' = "snd (uniform_n (- 0.5) 0.5 (nat (sN s)) g)"
  have "fst (izh_at (s\<lparr>sI := input_current s (noise_of s g)\<rparr>) i) = params_c s ! i"
    using assms(3) by (simp add: izh_at_def izhikevich_eq pre_reset_def Let_def)
  then have v: "sV ?s' ! i = params_c s ! i"
    using assms(2) c by (simp add: next_state_V clip_def)
  have len: "i < length (sV ?s')"
    using assms(2) by (simp add: next_state_lengths)
  have quiet: "\<not> 0 < sV ?s' ! i" using v c by simp
  have p: "propagate_from ?s' i new_I = Inr new_I" for new_I
    using quiet len by (simp add: propagate_from_def)
  have z: "contribution ?s' i j = 0" for j
    using quiet by (simp add: contribution_def)
  have wf': "wf_sim ?s'" using wf by (rule next_state_wf)
  let ?s'' = "next_state ?s' ?g'"
  have u2: "update ?s' ?g' = Inr (?s'', snd (uniform_n (- 0.5) 0.5 (nat (sN ?s')) ?g'))"
    using wf' by (rule update_next)
  have cur: "sI ?s'' ! j =
           (\<Sum>x\<in>{x \<in> {0..<nat (sN s)} - {i}. 0 < sV ?s' ! x \<and> has_edge (sG ?s') x j}.
              sW ?s' ! x ! j * (2 * sV ?s' ! x - params_c ?s' ! x)) + noise_of ?s' ?g' ! j"
    if j: "j < nat (sN s)" for j
  proof -
    have "{x \<in> {0..<nat (sN s)}. 0 < sV ?s' ! x \<and> has_edge (sG ?s') x j} =
          {x \<in> {0..<nat (sN s)} - {i}. 0 < sV ?s' ! x \<and> has_edge (sG ?s') x j}"
      using quiet by auto
    with update_current [of j ?s' ?g'] j show ?thesis
      by (simp add: next_state_static(1))
  qed
  have "\<exists>s'' g''. update ?s' ?g' = Inr (s'', g'') \<and>
        (\<forall>j<nat (sN s). sI s'' ! j =
           (\<Sum>x\<in>{x \<in> {0..<nat (sN s)} - {i}. 0 < sV ?s' ! x \<and> has_edge (sG ?s') x j}.
              sW ?s' ! x ! j * (2 * sV ?s' ! x - params_c ?s' ! x)) + noise_of ?s' ?g' ! j)"
    using u2 cur by blast
  moreover have "update s g = Inr (?s', ?g')" using wf by (rule update_next)
  moreover have "sV ?s' ! i = params_c ?s' ! i" using v by (simp add: next_state_static)
  moreover have "- 68 \<le> sV ?s' ! i" "sV ?s' ! i \<le> - 58" using v c by simp_all
  ultimately show ?thesis using quiet p z by blast
qed

lemma demo_next: "next_state demo_state zero_rng =
   demo_state\<lparr>sV := [- 68, - 68], su := [2.06, 1.935], sI := [- 0.5, 149.9]\<rparr>"
  using update_next [OF demo_wf, of zero_rng] by (simp add: demo_update)

lemma demo_current: "input_current demo_state (noise_of demo_state zero_rng) = [- 0.5, 149.9]"
  using next_state_static(8) [of demo_state zero_rng] by (simp add: demo_next)

lemma demo_N: "nat (sN demo_state) = 2"
  by (simp add: demo_state_def)

theorem clamp_invariant_witness:
  "wf_sim demo_state \<and>
   (\<exists>tr s' g'. run 1 demo_state zero_rng = Inr (tr, s', g') \<and> length tr = 1 \<and>
      (\<forall>x\<in>set tr. length (sV x) = nat (sN demo_state) \<and>
         (\<forall>v\<in>set (sV x). - 80 \<le> v \<and> v \<le> 80)))"
  using clamp_invariant [OF demo_wf, of 1 zero_rng] demo_wf by simp

theorem input_current_sum_witness:
  "wf_sim demo_state \<and> (1::nat) < nat (sN demo_state) \<and>
   (\<exists>s' g'. update demo_state zero_rng = Inr (s', g') \<and>
      sI s' ! 1 =
        (\<Sum>i\<in>{i \<in> {0..<nat (sN demo_state)}. 0 < sV demo_state ! i \<and> has_edge (sG demo_state) i 1}.
           sW demo_state ! i ! 1 * (2 * sV demo_state ! i - params_c demo_state ! i)) +
        noise_of demo_state zero_rng ! 1 \<and>
      sI s' ! 1 = 149.9)"
proof -
  have j: "(1::nat) < nat (sN demo_state)" by (simp add: demo_N)
  from input_current_sum [OF demo_wf j, of zero_rng] obtain s' g' where
    u: "update demo_state zero_rng = Inr (s', g')"
    and c: "sI s' ! 1 =
        (\<Sum>i\<in>{i \<in> {0..<nat (sN demo_state)}. 0 < sV demo_state ! i \<and> has_edge (sG demo_state) i 1}.
           sW demo_state ! i ! 1 * (2 * sV demo_state ! i - params_c demo_state ! i)) +
        noise_of demo_state zero_rng ! 1"
    by blast
  from demo_step_values [OF u] have "sI s' ! 1 = 149.9" by simp
  with u c j demo_wf show ?thesis by blast
qed

theorem initial_current_irrelevant_witness:
  "update (demo_state\<lparr>sI := [0, 0]\<rparr>) zero_rng = update demo_state zero_rng \<and>
   trajectory 1 (demo_state\<lparr>sI := [0, 0]\<rparr>) zero_rng = trajectory 1 demo_state zero_rng \<and>
   sI demo_state = [150, 0]"
  using initial_current_irrelevant [where s = demo_state and cur = "[0, 0]" and g = zero_rng and n = 1]
  by (simp add: demo_state_def)

theorem below_threshold_witness:
  "ready demo_state \<and>
   (\<exists>s' g'. update demo_state zero_rng = Inr (s', g') \<and> ready s' \<and>
      sV s' = [- 68, - 68] \<and> (\<forall>i<nat (sN demo_state). sV s' ! i < 30))"
proof -
  from below_threshold [OF demo_ready, of zero_rng] obtain s' g' where
    u: "update demo_state zero_rng = Inr (s', g')" and r: "ready s'"
    and b: "\<forall>i<nat (sN demo_state). sV s' ! i < 30"
    by blast
  from demo_step_values [OF u] have "sV s' = [- 68, - 68]" by simp
  with u r b demo_ready show ?thesis by blast
qed

lemma demo_pre_reset:
  "30 \<le> pre_reset (demo_state\<lparr>sI := input_current demo_state (noise_of demo_state zero_rng)\<rparr>) 0"
  by (simp add: demo_current pre_reset_def) (simp add: demo_state_def power2_eq_square)

theorem no_propagation_after_reset_witness:
  "ready demo_state \<and> (0::nat) < nat (sN demo_state) \<and>
   30 \<le> pre_reset (demo_state\<lparr>sI := input_current demo_state (noise_of demo_state zero_rng)\<rparr>) 0 \<and>
   (\<exists>s' g'. update demo_state zero_rng = Inr (s', g') \<and>
      sV s' ! 0 = - 68 \<and> (\<forall>new_I. propagate_from s' 0 new_I = Inr new_I) \<and>
      (\<forall>j. contribution s' 0 j = 0))"
proof -
  have i: "(0::nat) < nat (sN demo_state)" by (simp add: demo_N)
  from no_propagation_after_reset [OF demo_ready i demo_pre_reset] obtain s' g' where
    u: "update demo_state zero_rng = Inr (s', g')"
    and p: "\<forall>new_I. propagate_from s' 0 new_I = Inr new_I" "\<forall>j. contribution s' 0 j = 0"
    by blast
  from demo_step_values [OF u] have "sV s' ! 0 = - 68" by simp
  with u p i demo_ready demo_pre_reset show ?thesis by blast
qed

subsection \<open>Graph construction\<close>

lemma add_nodes_from_range:
  "add_nodes_from [] [0..<n] = map (\<lambda>i. (i, [])) [0..<n]"
proof (induction n)
  case 0
  then show ?case by (simp add: add_nodes_from_def)
next
  case (Suc n)
  have "n \<notin> fst ` set (map (\<lambda>i. (i, [])) [0..<n])" by (auto simp: image_iff)
  with Suc show ?case by (simp add: add_nodes_from_def add_node_def)
qed

lemma keys_nth:
  assumes "map fst G = [0..<n]" "i < n"
  shows "i < length G \<and> fst (G ! i) = i \<and> G ! i = (i, snd (G ! i))"
proof -
  from assms(1) have l: "length G = n" by (metis length_map length_upt minus_nat.diff_0)
  with assms have "map fst G ! i = i" by simp
  with l assms(2) have "fst (G ! i) = i" by simp
  with l assms(2) show ?thesis by (simp add: prod_eq_iff)
qed

lemma keys_update:
  assumes "map fst G = [0..<n]"
  shows "map fst (G[u := (u, x)]) = [0..<n]"
proof (cases "u < n")
  case True
  have "map fst (G[u := (u, x)]) = (map fst G)[u := u]" by (simp add: map_update)
  also have "\<dots> = [0..<n]" using assms True by (simp add: list_update_same_conv)
  finally show ?thesis .
next
  case False
  from assms have "length G = n" by (metis length_map length_upt minus_nat.diff_0)
  with False have "length G \<le> u" by simp
  then have "G[u := (u, x)] = G" by (rule list_update_beyond)
  with assms show ?thesis by (simp only:)
qed

lemma add_node_present:
  assumes "map fst G = [0..<n]" "u < n"
  shows "add_node G u = G"
proof -
  from assms have "u \<in> set (map fst G)" by simp
  then have "u \<in> fst ` set G" by simp
  then show ?thesis by (simp add: add_node_def)
qed

lemma add_edge_update:
  assumes "map fst G = [0..<n]" "u < n" "v < n"
  shows "add_edge G u v =
     G[u := (u, if v \<in> set (snd (G ! u)) then snd (G ! u) else snd (G ! u) @ [v])]"
proof -
  from assms(1) have l: "length G = n" by (metis length_map length_upt minus_nat.diff_0)
  have e: "add_edge G u v = map (add_succ u v) G"
    using assms by (simp add: add_edge_def add_node_present)
  show ?thesis
  proof (rule nth_equalityI)
    show "length (add_edge G u v) =
       length (G[u := (u, if v \<in> set (snd (G ! u)) then snd (G ! u) else snd (G ! u) @ [v])])"
      by (simp add: e)
  next
    fix i assume "i < length (add_edge G u v)"
    then have i: "i < n" by (simp add: e l)
    from keys_nth [OF assms(1) i] have fi: "fst (G ! i) = i" "G ! i = (i, snd (G ! i))"
      by simp_all
    show "add_edge G u v ! i =
       G[u := (u, if v \<in> set (snd (G ! u)) then snd (G ! u) else snd (G ! u) @ [v])] ! i"
    proof (cases "i = u")
      case True
      then show ?thesis
        using i l fi by (simp add: e add_succ_def)
    next
      case False
      then show ?thesis
        using i l fi by (simp add: e add_succ_def)
    qed
  qed
qed

lemma add_edges_fold:
  assumes "u < n"
  shows "map fst G = [0..<n] \<Longrightarrow> distinct ts \<Longrightarrow> \<forall>t\<in>set ts. t < n \<Longrightarrow>
     set ts \<inter> set (snd (G ! u)) = {} \<Longrightarrow>
     fold (\<lambda>target G'. add_edge G' u target) ts G = G[u := (u, snd (G ! u) @ ts)]"
proof (induction ts arbitrary: G)
  case Nil
  from keys_nth [OF Nil(1) assms] show ?case by (simp add: list_update_same_conv)
next
  case (Cons t ts)
  from Cons.prems(1) have l: "length G = n" by (metis length_map length_upt minus_nat.diff_0)
  let ?G1 = "G[u := (u, snd (G ! u) @ [t])]"
  have a: "add_edge G u t = ?G1"
    using Cons.prems assms by (simp add: add_edge_update)
  have k1: "map fst ?G1 = [0..<n]" using Cons.prems(1) by (rule keys_update)
  have s1: "snd (?G1 ! u) = snd (G ! u) @ [t]" using assms l by simp
  have "fold (\<lambda>target G'. add_edge G' u target) ts ?G1 = ?G1[u := (u, snd (?G1 ! u) @ ts)]"
    using Cons.prems k1 s1 by (intro Cons.IH) auto
  then show ?case by (simp add: a s1)
qed

lemma shuffle_props:
  "i < length xs \<Longrightarrow>
     length (fst (shuffle i xs g)) = length xs \<and>
     distinct (fst (shuffle i xs g)) = distinct xs \<and>
     set (fst (shuffle i xs g)) = set xs"
proof (induction i arbitrary: xs g)
  case 0
  then show ?case by simp
next
  case (Suc i)
  let ?j = "g 0 mod Suc (Suc i)"
  have j: "?j < length xs"
    using Suc.prems by (meson less_trans_Suc mod_less_divisor not_less_eq zero_less_Suc less_Suc_eq_le le_less_trans)
  let ?ys = "swap xs (Suc i) ?j"
  have ys: "length ?ys = length xs" "distinct ?ys = distinct xs" "set ?ys = set xs"
    using Suc.prems j by (simp_all add: swap_def)
  from Suc.prems ys(1) have "i < length ?ys" by simp
  from Suc.IH [OF this, of "rng_tail g"] ys show ?case
    by (simp add: random_interval_def)
qed

lemma permutation_props:
  "length (fst (permutation n g)) = n \<and> distinct (fst (permutation n g)) \<and>
   set (fst (permutation n g)) = {0..<n}"
proof (cases n)
  case 0
  then show ?thesis by (simp add: permutation_def)
next
  case (Suc m)
  then have "n - 1 < length [0..<n]" by simp
  from shuffle_props [OF this, of g] show ?thesis by (simp add: permutation_def)
qed

lemma choice_props:
  assumes "distinct pop" "0 \<le> k" "k \<le> int (length pop)"
  shows "\<exists>ts g'. choice pop k g = Inr (ts, g') \<and> int (length ts) = k \<and> distinct ts \<and>
           set ts \<subseteq> set pop"
proof -
  obtain idx g' where p: "permutation (length pop) g = (idx, g')"
    by (cases "permutation (length pop) g")
  with permutation_props [of "length pop" g] have
    idx: "length idx = length pop" "distinct idx" "set idx = {0..<length pop}" by simp_all
  let ?sel = "take (nat k) idx"
  let ?ts = "map (\<lambda>i. pop ! i) ?sel"
  have sub: "set ?sel \<subseteq> {0..<length pop}" using idx(3) set_take_subset by fastforce
  have c: "choice pop k g = Inr (?ts, g')"
    using assms p by (auto simp: choice_def)
  have "int (length ?ts) = k" using assms idx(1) by simp
  moreover have "distinct ?ts"
  proof -
    have "inj_on (nth pop) (set ?sel)"
      using assms(1) sub by (intro inj_on_nth) auto
    moreover have "distinct ?sel" using idx(2) by simp
    ultimately show ?thesis by (simp add: distinct_map)
  qed
  moreover have "set ?ts \<subseteq> set pop" using sub by auto
  ultimately show ?thesis using c by blast
qed

lemma others_length:
  assumes "node < n"
  shows "length (filter (\<lambda>m. m \<noteq> node) [0..<n]) = n - 1"
proof -
  have "length (filter (\<lambda>m. m \<noteq> node) [0..<n]) = card ({m. m \<noteq> node} \<inter> set [0..<n])"
    by (simp add: distinct_length_filter)
  also have "{m. m \<noteq> node} \<inter> set [0..<n] = {0..<n} - {node}" by auto
  also have "card \<dots> = n - 1" using assms by simp
  finally show ?thesis .
qed

lemma connect_node:
  assumes "0 \<le> k" "k < N" "node < nat N" "map fst G = [0..<nat N]" "snd (G ! node) = []"
  shows "\<exists>ts g'. connect N k node (G, g) = Inr (G[node := (node, ts)], g') \<and>
           regular (nat N) k node ts"
proof -
  let ?pop = "filter (\<lambda>m. m \<noteq> node) (py_range N)"
  have len: "length ?pop = nat N - 1"
    using assms(3) by (simp add: py_range_def others_length)
  have "k \<le> int (length ?pop)" using assms(1,2) len by simp
  moreover have "distinct ?pop" by (simp add: py_range_def)
  ultimately obtain ts g' where
    c: "choice ?pop k g = Inr (ts, g')" "int (length ts) = k" "distinct ts" "set ts \<subseteq> set ?pop"
    using choice_props [of ?pop k g] assms(1) by blast
  from c(4) have t: "\<forall>t\<in>set ts. t < nat N" "node \<notin> set ts"
    by (auto simp: py_range_def)
  have "fold (\<lambda>target G'. add_edge G' node target) ts G = G[node := (node, snd (G ! node) @ ts)]"
    using assms(3,4,5) c(3) t(1) by (intro add_edges_fold) simp_all
  then have "connect N k node (G, g) = Inr (G[node := (node, ts)], g')"
    using c(1) assms(5) by (simp add: connect_def)
  moreover have "regular (nat N) k node ts"
    using c(2,3) t by (simp add: regular_def list_all_iff)
  ultimately show ?thesis by blast
qed

lemma build_loop:
  assumes "0 \<le> k" "k < N"
  shows "m \<le> nat N \<Longrightarrow>
     \<exists>G g'. for_loop (connect N k) [0..<m] (add_nodes_from [] (py_range N), g) = Inr (G, g') \<and>
        map fst G = [0..<nat N] \<and>
        (\<forall>i<m. regular (nat N) k i (snd (G ! i))) \<and>
        (\<forall>i. m \<le> i \<and> i < nat N \<longrightarrow> snd (G ! i) = [])"
proof (induction m)
  case 0
  have "map fst (map (\<lambda>i. (i, [])) [0..<nat N]) = [0..<nat N]"
    by (simp add: comp_def)
  then show ?case
    by (simp add: py_range_def add_nodes_from_range)
next
  case (Suc m)
  then obtain G g1 where
    l: "for_loop (connect N k) [0..<m] (add_nodes_from [] (py_range N), g) = Inr (G, g1)"
    and keys: "map fst G = [0..<nat N]"
    and built: "\<forall>i<m. regular (nat N) k i (snd (G ! i))"
    and todo: "\<forall>i. m \<le> i \<and> i < nat N \<longrightarrow> snd (G ! i) = []"
    by auto
  from Suc.prems have m: "m < nat N" by simp
  from keys have len: "length G = nat N" by (metis length_map length_upt minus_nat.diff_0)
  from todo m have "snd (G ! m) = []" by simp
  from connect_node [OF assms m keys this, of g1] obtain ts g2 where
    c: "connect N k m (G, g1) = Inr (G[m := (m, ts)], g2)" "regular (nat N) k m ts"
    by blast
  let ?G = "G[m := (m, ts)]"
  have "for_loop (connect N k) [0..<Suc m] (add_nodes_from [] (py_range N), g) = Inr (?G, g2)"
    using l c(1) by (simp add: for_loop_append)
  moreover have "map fst ?G = [0..<nat N]" using keys by (rule keys_update)
  moreover have "\<forall>i<Suc m. regular (nat N) k i (snd (?G ! i))"
    using built c(2) m len by (simp add: nth_list_update less_Suc_eq)
  moreover have "\<forall>i. Suc m \<le> i \<and> i < nat N \<longrightarrow> snd (?G ! i) = []"
    using todo by (simp add: nth_list_update)
  ultimately show ?case by blast
qed

lemma build_graph:
  assumes "0 \<le> k" "k < N"
  shows "\<exists>G g'. for_loop (connect N k) (py_range N) (add_nodes_from [] (py_range N), g) = Inr (G, g') \<and>
        map fst G = [0..<nat N] \<and> (\<forall>i<nat N. regular (nat N) k i (snd (G ! i)))"
  using build_loop [OF assms, of "nat N" g] by (auto simp: py_range_def)

lemma map_of_nth:
  assumes "map fst G = [0..<n]" "i < n"
  shows "map_of G i = Some (snd (G ! i))"
proof -
  from keys_nth [OF assms] have "(i, snd (G ! i)) \<in> set G" by (metis nth_mem)
  moreover from assms(1) have "distinct (map fst G)" by simp
  ultimately show ?thesis by simp
qed

lemma successors_nth:
  "map fst G = [0..<n] \<Longrightarrow> i < n \<Longrightarrow> successors G i = Inr (snd (G ! i))"
  by (simp add: successors_def map_of_nth)

lemma edges_in_range:
  assumes "map fst G = [0..<n]" "\<forall>i<n. list_all (\<lambda>j. j < n) (snd (G ! i))"
    and "e \<in> set (edges G)"
  shows "fst e < n \<and> snd e < n"
proof -
  from assms(3) obtain x where x: "x \<in> set G" "fst e = fst x" "snd e \<in> set (snd x)"
    by (auto simp: edges_def)
  then obtain p where p: "p < length G" "x = G ! p" by (metis in_set_conv_nth)
  from assms(1) have "length G = n" by (metis length_map length_upt minus_nat.diff_0)
  with p have pn: "p < n" by simp
  from keys_nth [OF assms(1) pn] p x have "fst e = p" by simp
  moreover from assms(2) pn p x have "snd e < n" by (auto simp: list_all_iff)
  ultimately show ?thesis using pn by simp
qed

lemma setitem2_in:
  "i < length W \<Longrightarrow> j < length (W ! i) \<Longrightarrow> setitem2 W i j w = Inr (W[i := (W ! i)[j := w]])"
  by (simp add: setitem2_def)

lemma assign_weights:
  "length W = n \<Longrightarrow> \<forall>row\<in>set W. length row = n \<Longrightarrow>
   \<forall>e\<in>set es. fst e < n \<and> snd e < n \<Longrightarrow>
     \<exists>W' g'. for_loop assign_weight es (W, g) = Inr (W', g') \<and> length W' = n \<and>
        (\<forall>row\<in>set W'. length row = n)"
proof (induction es arbitrary: W g)
  case Nil
  then show ?case by simp
next
  case (Cons e es)
  obtain i j where e: "e = (i, j)" by (cases e)
  obtain w g1 where u: "uniform 0.8 1.2 g = (w, g1)" by (cases "uniform 0.8 1.2 g")
  from Cons.prems e have ij: "i < length W" "j < length (W ! i)" by simp_all
  let ?W = "W[i := (W ! i)[j := w]]"
  have a: "assign_weight e (W, g) = Inr (?W, g1)"
    using u ij by (simp add: assign_weight_def e setitem2_in)
  have "length ?W = n" using Cons.prems(1) by simp
  moreover have "\<forall>row\<in>set ?W. length row = n"
  proof
    fix row assume "row \<in> set ?W"
    then have "row = (W ! i)[j := w] \<or> row \<in> set W"
      using set_update_subset_insert [of W i "(W ! i)[j := w]"] by auto
    then show "length row = n" using Cons.prems(1,2) ij by auto
  qed
  moreover have "\<forall>e\<in>set es. fst e < n \<and> snd e < n" using Cons.prems(3) by simp
  ultimately obtain W' g' where "for_loop assign_weight es (?W, g1) = Inr (W', g')"
    "length W' = n" "\<forall>row\<in>set W'. length row = n"
    using Cons.IH [of ?W g1] by blast
  with a show ?case by simp
qed

subsection \<open>Initialisation: when it returns and what it builds\<close>

lemma regular_range: "regular n k i ns \<Longrightarrow> list_all (\<lambda>j. j < n) ns"
  by (simp add: regular_def)

lemma initialise_ok:
  assumes "0 \<le> cfg_k cfg" "cfg_k cfg < cfg_N cfg"
  shows "\<exists>s g'. initialise mt cfg g0 = Inr (s, g') \<and> ready s \<and> sN s = cfg_N cfg \<and>
           map fst (sG s) = [0..<nat (cfg_N cfg)] \<and>
           (\<forall>i<nat (cfg_N cfg). regular (nat (cfg_N cfg)) (cfg_k cfg) i (snd (sG s ! i)))"
proof -
  let ?N = "cfg_N cfg" and ?k = "cfg_k cfg"
  let ?n = "nat ?N"
  from assms have N: "0 < ?N" "0 < ?n" by simp_all
  from build_graph [OF assms, of "mt (cfg_seed cfg)"] obtain G g1 where
    b: "for_loop (connect ?N ?k) (py_range ?N) (add_nodes_from [] (py_range ?N), mt (cfg_seed cfg))
          = Inr (G, g1)"
    and keys: "map fst G = [0..<?n]"
    and reg: "\<forall>i<?n. regular ?n ?k i (snd (G ! i))"
    by blast
  let ?a = "uniform_n 0.01 0.03 ?n g1"
  let ?b = "uniform_n 0.1 0.3 ?n (snd ?a)"
  let ?c = "uniform_n (- 68) (- 58) ?n (snd ?b)"
  let ?d = "uniform_n 2 10 ?n (snd ?c)"
  let ?W0 = "replicate ?n (replicate ?n (0::real))"
  have rng: "\<forall>i<?n. list_all (\<lambda>j. j < ?n) (snd (G ! i))"
    using reg regular_range by blast
  have "\<forall>e\<in>set (edges G). fst e < ?n \<and> snd e < ?n"
    using edges_in_range [OF keys rng] by blast
  from assign_weights [of ?W0 ?n "edges G" "snd ?d", OF _ _ this] obtain W g6 where
    w: "for_loop assign_weight (edges G) (?W0, snd ?d) = Inr (W, g6)"
    and wl: "length W = ?n" "\<forall>row\<in>set W. length row = ?n"
    by auto
  let ?s = "\<lparr>sN = ?N, sG = G, sW = W, sV = (replicate ?n (- 65))[0 := 60],
             su = replicate ?n 0, sI = (replicate ?n 0)[0 := 150],
             params_a = fst ?a, params_b = fst ?b, params_c = fst ?c, params_d = fst ?d\<rparr>"
  have i: "initialise mt cfg g0 = Inr (?s, g6)"
    using b w N
    by (simp add: initialise_def Let_def np_random_seed_def np_full_def np_zeros_def
        np_zeros2_def uniform_size_def case_prod_beta)
  have "lens_ok ?s"
    using N by (simp add: lens_ok_def uniform_n_length)
  moreover have "graph_ok ?s"
    unfolding graph_ok_def list_all_iff
  proof
    fix j assume "j \<in> set [0..<nat (sN ?s)]"
    then have j: "j < ?n" by simp
    from reg j have "regular ?n ?k j (snd (G ! j))" by simp
    then show "case map_of (sG ?s) j of None \<Rightarrow> False
       | Some ns \<Rightarrow> distinct ns \<and> Ball (set ns) (\<lambda>j. j < nat (sN ?s))"
      using map_of_nth [OF keys j] by (simp add: regular_def list_all_iff)
  qed
  moreover have "weights_ok ?s"
    using wl by (simp add: weights_ok_def list_all_iff)
  moreover have "reset_in_range ?s"
    unfolding reset_in_range_def list_all_iff
  proof
    fix x assume "x \<in> set (params_c ?s)"
    then have "x \<in> set (fst ?c)" by simp
    then show "- 68 \<le> x \<and> x \<le> - 58"
      by (intro uniform_n_range [of "- 68" "- 58"]) simp_all
  qed
  ultimately have "ready ?s" by (simp add: ready_def wf_sim_def)
  with i keys reg show ?thesis by simp
qed

lemma initialise_fails:
  assumes "cfg_N cfg \<le> 0 \<or> cfg_N cfg \<le> cfg_k cfg"
  shows "initialise mt cfg g0 = Inl (if cfg_N cfg = 0 then IndexError else ValueError)"
proof -
  let ?N = "cfg_N cfg" and ?k = "cfg_k cfg"
  consider "?N < 0" | "?N = 0" | "0 < ?N" "?N \<le> ?k" using assms by linarith
  then show ?thesis
  proof cases
    case 1
    then show ?thesis
      by (simp add: initialise_def Let_def py_range_def np_full_def)
  next
    case 2
    then show ?thesis
      by (simp add: initialise_def Let_def py_range_def np_full_def setitem_def)
  next
    case 3
    let ?pop = "filter (\<lambda>m. m \<noteq> 0) (py_range ?N)"
    have r: "py_range ?N = 0 # [1..<nat ?N]"
      using 3(1) by (simp add: py_range_def upt_conv_Cons)
    have "length ?pop = nat ?N - 1"
      using 3(1) others_length [of 0 "nat ?N"] by (simp add: py_range_def)
    with 3 have "int (length ?pop) < ?k" by simp
    then have "choice ?pop ?k g = Inl ValueError" for g
      by (simp add: choice_def)
    then have "connect ?N ?k 0 (G, g) = Inl ValueError" for G g
      by (simp add: connect_def)
    then have "for_loop (connect ?N ?k) (py_range ?N) (G, g) = Inl ValueError" for G g
      by (simp add: r)
    with 3(1) show ?thesis
      by (simp add: initialise_def Let_def)
  qed
qed

lemma initialise_fails_negative:
  assumes "0 < cfg_N cfg" "cfg_k cfg < 0"
  shows "initialise mt cfg g0 = Inl ValueError"
proof -
  let ?N = "cfg_N cfg" and ?k = "cfg_k cfg"
  have r: "py_range ?N = 0 # [1..<nat ?N]"
    using assms(1) by (simp add: py_range_def upt_conv_Cons)
  have "choice pop ?k g = Inl ValueError" for pop :: "nat list" and g
    using assms(2) by (simp add: choice_def)
  then have "connect ?N ?k 0 (G, g) = Inl ValueError" for G g
    by (simp add: connect_def)
  then have "for_loop (connect ?N ?k) (py_range ?N) (G, g) = Inl ValueError" for G g
    by (simp add: r)
  then show ?thesis
    by (simp add: initialise_def Let_def)
qed

text \<open>Every state the script can be in between two steps is \<open>ready\<close>.\<close>

lemma initialise_ready:
  assumes "initialise mt cfg g0 = Inr (s, g)"
  shows "ready s"
proof -
  have "\<not> (cfg_N cfg \<le> 0 \<or> cfg_N cfg \<le> cfg_k cfg)"
    using assms initialise_fails [of cfg mt g0] by auto
  moreover have "\<not> cfg_k cfg < 0"
    using assms calculation initialise_fails_negative [of cfg mt g0] by auto
  ultimately have "0 \<le> cfg_k cfg" "cfg_k cfg < cfg_N cfg" by simp_all
  from initialise_ok [OF this, of mt g0] assms show ?thesis by auto
qed

lemma run_ready:
  assumes "ready s" "run n s g = Inr (tr, s', g')" "x \<in> set tr"
  shows "ready x"
proof -
  from assms(1) have "wf_sim s" by (simp add: ready_def)
  from run_total [OF this, of n g] assms(2) have "tr = states n s g" by auto
  with assms(1,3) show ?thesis by (simp add: states_ready)
qed

lemma script_config_ok:
  "0 < cfg_k script_config \<and> cfg_k script_config < cfg_N script_config"
  by (simp add: script_config_def)

lemma rng_tail_const: "rng_tail (\<lambda>n. c) = (\<lambda>n. c)"
  by (simp add: rng_tail_def)

lemma demo_init_gen:
  "cfg_N cfg = 2 \<Longrightarrow> cfg_k cfg = 1 \<Longrightarrow>
     initialise zero_seeding cfg g0 = Inr (demo_state, zero_rng)"
  by (simp add: initialise_def py_range_def upt_2 np_random_seed_def zero_seeding_def
      add_nodes_from_def add_node_def connect_def choice_def permutation_def
      random_interval_def add_edge_def add_succ_def np_full_def np_zeros_def np_zeros2_def
      setitem_def getitem_def setitem2_def uniform_size_def uniform_def
      random_sample_def edges_def assign_weight_def numeral_2_eq_2 rng_tail_const zero_rng_def
      demo_state_def)

lemma demo_init: "initialise zero_seeding demo_config g0 = Inr (demo_state, zero_rng)"
  by (rule demo_init_gen) (simp_all add: demo_config_def)


text \<open>
  Claim C3 (fixed out-degree). For \<open>0 < k < N\<close> initialisation returns, the nodes of its
  graph are \<open>0, \<dots>, N - 1\<close>, and every node has exactly \<open>k\<close> successors, all different, none
  of them the node itself, all of them nodes of the graph.
\<close>

theorem fixed_out_degree:
  assumes "0 < cfg_k cfg" "cfg_k cfg < cfg_N cfg"
  shows "\<exists>s g'. initialise mt cfg g0 = Inr (s, g') \<and>
     map fst (sG s) = [0..<nat (cfg_N cfg)] \<and>
     (\<forall>i<nat (cfg_N cfg). \<exists>ns. successors (sG s) i = Inr ns \<and>
        int (length ns) = cfg_k cfg \<and> distinct ns \<and> i \<notin> set ns \<and>
        (\<forall>j\<in>set ns. j < nat (cfg_N cfg)))"
proof -
  from assms have "0 \<le> cfg_k cfg" by simp
  from initialise_ok [OF this assms(2), of mt g0] obtain s g' where
    i: "initialise mt cfg g0 = Inr (s, g')"
    and keys: "map fst (sG s) = [0..<nat (cfg_N cfg)]"
    and reg: "\<forall>i<nat (cfg_N cfg). regular (nat (cfg_N cfg)) (cfg_k cfg) i (snd (sG s ! i))"
    by blast
  have "\<exists>ns. successors (sG s) i = Inr ns \<and>
        int (length ns) = cfg_k cfg \<and> distinct ns \<and> i \<notin> set ns \<and>
        (\<forall>j\<in>set ns. j < nat (cfg_N cfg))" if "i < nat (cfg_N cfg)" for i
    using that reg successors_nth [OF keys that]
    by (simp add: regular_def list_all_iff)
  with i keys show ?thesis by blast
qed

theorem fixed_out_degree_witness:
  "0 < cfg_k demo_config \<and> cfg_k demo_config < cfg_N demo_config \<and>
   (\<exists>s g'. initialise zero_seeding demo_config zero_rng = Inr (s, g') \<and>
      map fst (sG s) = [0..<nat (cfg_N demo_config)] \<and>
      sG s = [(0, [1]), (1, [0])])"
proof -
  have h: "0 < cfg_k demo_config" "cfg_k demo_config < cfg_N demo_config"
    by (simp_all add: demo_config_def)
  from fixed_out_degree [OF h, of zero_seeding zero_rng] obtain s g' where
    i: "initialise zero_seeding demo_config zero_rng = Inr (s, g')"
    and k: "map fst (sG s) = [0..<nat (cfg_N demo_config)]"
    by blast
  from i have "s = demo_state" by (simp add: demo_init)
  then have "sG s = [(0, [1]), (1, [0])]" by (simp add: demo_state_def)
  with h i k show ?thesis by blast
qed

text \<open>
  Claim C6 (reproducible under a fixed seed). The generator is seeded before the first
  draw, so whatever state the global generator is in when the script starts, the same
  seeding function, seed and configuration give the same graph, weights, parameters and
  initial state, and the same sequence of states.
\<close>

theorem seeded_run_reproducible:
  "initialise mt cfg g0 = initialise mt cfg g0' \<and> simulate mt cfg g0 = simulate mt cfg g0'"
  by (simp add: initialise_def simulate_def np_random_seed_def)

theorem seeded_run_reproducible_witness:
  "initialise zero_seeding demo_config count_rng = initialise zero_seeding demo_config zero_rng \<and>
   simulate zero_seeding demo_config count_rng = simulate zero_seeding demo_config zero_rng \<and>
   count_rng \<noteq> zero_rng"
proof -
  have "count_rng 1 \<noteq> zero_rng 1" by (simp add: count_rng_def zero_rng_def)
  then have "count_rng \<noteq> zero_rng" by metis
  with seeded_run_reproducible [of zero_seeding demo_config count_rng zero_rng]
  show ?thesis by simp
qed





end
